theory Spec2Isabelle
  imports Main "HOL-Library.Sublist"
begin

section \<open>Python values used by update-imported-docs.py\<close>

text \<open>
  The script is a Python 3 program. Its strings are modelled as \<open>string\<close>, the
  exceptions it can raise as values of \<open>py_error\<close>, and a computation that may
  raise as a value of \<open>py_error + 'a\<close> with \<open>Inl\<close> for the raised exception.
\<close>

datatype py_error =
    IndexError
  | KeyError string
  | AttributeError
  | TypeError
  | CalledProcessError
  | UnboundLocalError string
  | OSError string
  | OtherError string
  | SystemExit int

text \<open>
  \<open>str(ex)\<close>, as the script prints an exception. The exceptions that come from the
  environment carry their message.
\<close>

fun error_str :: "py_error \<Rightarrow> string" where
  "error_str IndexError = ''list index out of range''"
| "error_str (KeyError k) = [CHR 0x27] @ k @ [CHR 0x27]"
| "error_str AttributeError = [CHR 0x27] @ ''NoneType'' @ [CHR 0x27] @ '' object has no attribute ''
                              @ [CHR 0x27] @ ''startswith'' @ [CHR 0x27]"
| "error_str TypeError = ''expected str, bytes or os.PathLike object, not NoneType''"
| "error_str CalledProcessError = ''Command returned non-zero exit status''"
| "error_str (UnboundLocalError v) = ''local variable '' @ [CHR 0x27] @ v @ [CHR 0x27]
                                     @ '' referenced before assignment''"
| "error_str (OSError msg) = msg"
| "error_str (OtherError msg) = msg"
| "error_str (SystemExit n) = []"

text \<open>\<open>s.startswith(p)\<close> and \<open>s.endswith(p)\<close>.\<close>

definition startswith :: "string \<Rightarrow> string \<Rightarrow> bool" where
  "startswith s p = prefix p s"

definition endswith :: "string \<Rightarrow> string \<Rightarrow> bool" where
  "endswith s p = suffix p s"

text \<open>
  \<open>s.split(sep)\<close> for a non-empty separator: the pieces between the occurrences of
  \<open>sep\<close>, found from left to right without overlap. The result always has at least one
  piece. (Python raises ValueError for an empty separator; the script only splits at
  the constants \<open>"kubectl "\<close> and \<open>"=="\<close>, and for an empty separator the model
  returns the characters unsplit.)
\<close>

function py_split :: "string \<Rightarrow> string \<Rightarrow> string list" where
  "py_split s sep =
     (if sep \<noteq> [] \<and> prefix sep s then [] # py_split (drop (length sep) s) sep
      else (case s of
              [] \<Rightarrow> [[]]
            | c # cs \<Rightarrow> (case py_split cs sep of
                           [] \<Rightarrow> [[c]]
                         | p # ps \<Rightarrow> (c # p) # ps)))"
  by pat_completeness auto
termination
  by (relation "measure (\<lambda>(s, sep). length s)") (auto simp: prefix_def)

text \<open>\<open>xs[i]\<close> for a non-negative index: IndexError out of range.\<close>

definition py_index :: "'a list \<Rightarrow> nat \<Rightarrow> py_error + 'a" where
  "py_index xs i = (if i < length xs then Inr (xs ! i) else Inl IndexError)"

text \<open>\<open>sep.join(xs)\<close>.\<close>

fun py_join :: "string \<Rightarrow> string list \<Rightarrow> string" where
  "py_join sep [] = []"
| "py_join sep [x] = x"
| "py_join sep (x # y # ys) = x @ sep @ py_join sep (y # ys)"

text \<open>The format \<open>"[%s](%s)" % (ankor, target)\<close>.\<close>

definition fmt_link :: "string \<Rightarrow> string \<Rightarrow> string" where
  "fmt_link ankor target = ''['' @ ankor @ '']('' @ target @ '')''"

text \<open>
  \<open>reqs.split()\<close> on the output of a process: the pieces between runs of ASCII
  whitespace, none of them empty.
\<close>

definition is_space :: "char \<Rightarrow> bool" where
  "is_space c \<longleftrightarrow> c \<in> set [CHR '' '', CHR 0x09, CHR 0x0A, CHR 0x0B, CHR 0x0C, CHR 0x0D]"

function py_split_ws :: "string \<Rightarrow> string list" where
  "py_split_ws s =
     (case dropWhile is_space s of
        [] \<Rightarrow> []
      | c # cs \<Rightarrow> takeWhile (\<lambda>x. \<not> is_space x) (c # cs)
                 # py_split_ws (dropWhile (\<lambda>x. \<not> is_space x) cs))"
  by pat_completeness auto
termination
proof (relation "measure length")
  show "wf (measure length)" by simp
next
  fix s :: string and c cs
  assume "dropWhile is_space s = c # cs"
  then have "length cs < length s"
    by (metis length_dropWhile_le length_Cons less_Suc_eq_le not_less_eq)
  moreover have "length (dropWhile (\<lambda>x. \<not> is_space x) cs) \<le> length cs"
    by (rule length_dropWhile_le)
  ultimately show "(dropWhile (\<lambda>x. \<not> is_space x) cs, s) \<in> measure length" by simp
qed

section \<open>Regular expressions as Python's \<open>re\<close> module matches them\<close>

text \<open>
  The patterns of the script use literals, \<open>.\<close>, \<open>.*\<close>, \<open>.*?\<close>, an optional
  group, named groups, \<open>^\<close> and \<open>$\<close>, with no flags. \<open>Dot\<close> matches any character but
  the newline; \<open>Bol\<close> matches at the start of the subject only and \<open>Eol\<close> at its end
  or just before a newline that ends it.
\<close>

datatype regex =
    Eps
  | Lit char
  | Dot
  | Bol
  | Eol
  | Cat regex regex
  | Opt regex
  | Star regex
  | StarLazy regex
  | Grp string regex

text \<open>
  The matcher is a backtracking one. A matcher state holds the groups captured so far
  (latest first), whether the position is the start of the subject, and the input that
  remains. \<open>rmatch r st\<close> lists every way \<open>r\<close> can match at \<open>st\<close>, in the order in
  which the backtracking engine tries them: the first element is the match the engine
  reports, and the engine falls back to the next one when what follows fails. A greedy
  operator lists the longer alternative first, a lazy one the shorter. An iteration of
  a starred expression that consumes nothing is not repeated.
\<close>

type_synonym groups = "(string \<times> string) list"
type_synonym mstate = "groups \<times> bool \<times> string"

definition newline :: char where
  "newline = CHR 0x0A"

function rmatch :: "regex \<Rightarrow> mstate \<Rightarrow> mstate list" where
  "rmatch Eps (g, b, s) = [(g, b, s)]"
| "rmatch (Lit c) (g, b, s) =
     (case s of [] \<Rightarrow> [] | x # xs \<Rightarrow> if x = c then [(g, False, xs)] else [])"
| "rmatch Dot (g, b, s) =
     (case s of [] \<Rightarrow> [] | x # xs \<Rightarrow> if x \<noteq> newline then [(g, False, xs)] else [])"
| "rmatch Bol (g, b, s) = (if b then [(g, b, s)] else [])"
| "rmatch Eol (g, b, s) = (if s = [] \<or> s = [newline] then [(g, b, s)] else [])"
| "rmatch (Cat r1 r2) (g, b, s) = concat (map (rmatch r2) (rmatch r1 (g, b, s)))"
| "rmatch (Opt r) (g, b, s) = rmatch r (g, b, s) @ [(g, b, s)]"
| "rmatch (Star r) (g, b, s) =
     concat (map (\<lambda>(g', b', s'). if length s' < length s then rmatch (Star r) (g', b', s') else [])
                 (rmatch r (g, b, s)))
     @ [(g, b, s)]"
| "rmatch (StarLazy r) (g, b, s) =
     (g, b, s) #
     concat (map (\<lambda>(g', b', s'). if length s' < length s then rmatch (StarLazy r) (g', b', s') else [])
                 (rmatch r (g, b, s)))"
| "rmatch (Grp n r) (g, b, s) =
     map (\<lambda>(g', b', s'). ((n, take (length s - length s') s) # g', b', s')) (rmatch r (g, b, s))"
  by pat_completeness auto
termination
  by (relation "measures [\<lambda>(r, st). size r, \<lambda>(r, g, b, s). length s]") auto

text \<open>A sequence of expressions, as a pattern is written.\<close>

fun cats :: "regex list \<Rightarrow> regex" where
  "cats [] = Eps"
| "cats [r] = r"
| "cats (r # rs) = Cat r (cats rs)"

text \<open>
  A match object: the captured groups. \<open>m.group(name)\<close> is the text of the group, or
  None for a group that did not take part in the match.
\<close>

definition group :: "groups \<Rightarrow> string \<Rightarrow> string option" where
  "group g n = map_of g n"

text \<open>
  The match the engine reports at one position: the first alternative, with the input
  left after it.
\<close>

definition match_here :: "regex \<Rightarrow> bool \<Rightarrow> string \<Rightarrow> (groups \<times> string) option" where
  "match_here r b s =
     (case rmatch r ([], b, s) of [] \<Rightarrow> None | (g, b', s') # _ \<Rightarrow> Some (g, s'))"

text \<open>
  \<open>pattern.search(s)\<close>: the match at the leftmost position that has one.
\<close>

fun search_from :: "regex \<Rightarrow> bool \<Rightarrow> string \<Rightarrow> groups option" where
  "search_from r b [] = map_option fst (match_here r b [])"
| "search_from r b (c # cs) =
     (case match_here r b (c # cs) of
        Some (g, s') \<Rightarrow> Some g
      | None \<Rightarrow> search_from r False cs)"

definition re_search :: "regex \<Rightarrow> string \<Rightarrow> groups option" where
  "re_search r s = search_from r True s"

text \<open>
  \<open>re.sub(pattern, repl, s)\<close> with a function or a constant as replacement: the
  non-overlapping matches are replaced from left to right. The subject is scanned
  from the left; at a position with a match that consumes input, the replacement is
  written and the scan goes on after the match; at a position without one, the
  character is copied. A match that consumes nothing writes the replacement, and the
  character after it is copied. The replacement function may raise, which ends the
  substitution.
\<close>

function sub_from :: "regex \<Rightarrow> (groups \<Rightarrow> py_error + string) \<Rightarrow> bool \<Rightarrow> string \<Rightarrow> py_error + string" where
  "sub_from r repl b s =
     (case match_here r b s of
        None \<Rightarrow>
          (case s of
             [] \<Rightarrow> Inr []
           | c # cs \<Rightarrow> (case sub_from r repl False cs of
                          Inl e \<Rightarrow> Inl e
                        | Inr out \<Rightarrow> Inr (c # out)))
      | Some (g, s') \<Rightarrow>
          (case repl g of
             Inl e \<Rightarrow> Inl e
           | Inr t \<Rightarrow>
               if length s' < length s then
                 (case sub_from r repl False s' of
                    Inl e \<Rightarrow> Inl e
                  | Inr out \<Rightarrow> Inr (t @ out))
               else
                 (case s of
                    [] \<Rightarrow> Inr t
                  | c # cs \<Rightarrow> (case sub_from r repl False cs of
                                 Inl e \<Rightarrow> Inl e
                               | Inr out \<Rightarrow> Inr (t @ c # out)))))"
  by pat_completeness auto
termination
  by (relation "measure (\<lambda>(r, repl, b, s). length s)") auto

definition re_sub :: "regex \<Rightarrow> (groups \<Rightarrow> py_error + string) \<Rightarrow> string \<Rightarrow> py_error + string" where
  "re_sub r repl s = sub_from r repl True s"

section \<open>The link transforms\<close>

text \<open>
  \<open>process_links(content, remote_prefix, sub_path)\<close>. The inner function
  \<open>analyze\<close> receives the match object; \<open>target[1:]\<close> is the target without its
  first character.
\<close>

definition link_regex :: regex where
  "link_regex = cats [Lit CHR ''['', Grp ''ankor'' (Star Dot), Lit CHR '']'', Lit CHR ''('',
                      Grp ''target'' (Star Dot), Lit CHR '')'']"

definition h1_regex :: regex where
  "h1_regex = cats [Bol, Opt (Grp ''1'' (cats [Lit CHR ''#'', Lit CHR '' '', Star Dot])), Lit newline]"

definition analyze :: "string \<Rightarrow> string \<Rightarrow> groups \<Rightarrow> py_error + string" where
  "analyze remote_prefix sub_path match_obj =
     (case group match_obj ''ankor'' of
        None \<Rightarrow> Inl AttributeError
      | Some ankor \<Rightarrow>
     (case group match_obj ''target'' of
        None \<Rightarrow> Inl AttributeError
      | Some target \<Rightarrow>
          if \<not> (startswith target ''https://'' \<or> startswith target ''mailto:'' \<or>
                 startswith target ''#'')
          then (if startswith target ''/''
                then Inr (fmt_link ankor (py_join ''/'' [remote_prefix, drop 1 target]))
                else Inr (fmt_link ankor (py_join ''/'' [remote_prefix, sub_path, target])))
          else Inr (fmt_link ankor target)))"

text \<open>The two steps of \<open>process_links\<close>: the substitution of the links, then
  the substitution of the leading heading by the empty string.\<close>

definition rewrite_links :: "string \<Rightarrow> string \<Rightarrow> string \<Rightarrow> py_error + string" where
  "rewrite_links content remote_prefix sub_path =
     re_sub link_regex (analyze remote_prefix sub_path) content"

definition strip_h1 :: "string \<Rightarrow> py_error + string" where
  "strip_h1 content = re_sub h1_regex (\<lambda>m. Inr []) content"

definition process_links :: "string \<Rightarrow> string \<Rightarrow> string \<Rightarrow> py_error + string" where
  "process_links content remote_prefix sub_path =
     (case rewrite_links content remote_prefix sub_path of
        Inl e \<Rightarrow> Inl e
      | Inr content1 \<Rightarrow> strip_h1 content1)"

text \<open>
  \<open>process_kubectl_links(content)\<close>. Its pattern takes the target lazily.
  \<open>ankor_list[1]\<close> raises IndexError when the split has one piece only.
\<close>

definition kubectl_link_regex :: regex where
  "kubectl_link_regex = cats [Lit CHR ''['', Grp ''ankor'' (Star Dot), Lit CHR '']'', Lit CHR ''('',
                              Grp ''target'' (StarLazy Dot), Lit CHR '')'']"

definition kubectl_analyze :: "groups \<Rightarrow> py_error + string" where
  "kubectl_analyze match_obj =
     (case group match_obj ''ankor'' of
        None \<Rightarrow> Inl AttributeError
      | Some ankor \<Rightarrow>
     (case group match_obj ''target'' of
        None \<Rightarrow> Inl AttributeError
      | Some target \<Rightarrow>
          if endswith target ''.md'' \<and> startswith target ''kubectl''
          then (let ankor_list = py_split ankor ''kubectl ''
                in case py_index ankor_list 1 of
                     Inl e \<Rightarrow> Inl e
                   | Inr piece \<Rightarrow>
                       Inr (fmt_link ankor
                             (''/docs/reference/generated/kubectl/kubectl-commands'' @ ''#'' @ piece)))
          else Inr (fmt_link ankor target)))"

definition process_kubectl_links :: "string \<Rightarrow> py_error + string" where
  "process_kubectl_links content = re_sub kubectl_link_regex kubectl_analyze content"

section \<open>Paths\<close>

text \<open>
  The functions of \<open>os.path\<close> that the script calls, as \<open>posixpath\<close> defines them
  (the script exports shell variables and clones under \<open>/tmp\<close>: it runs on POSIX).
  \<open>os.path.join(a, b)\<close>: an absolute \<open>b\<close> replaces what came before it; otherwise
  \<open>b\<close> is appended, after a slash unless \<open>a\<close> is empty or ends with one. With more
  arguments the components are joined from the left.
\<close>

definition os_path_join :: "string \<Rightarrow> string \<Rightarrow> string" where
  "os_path_join a b =
     (if startswith b ''/'' then b
      else if a = [] \<or> endswith a ''/'' then a @ b
      else a @ ''/'' @ b)"

definition os_path_join3 :: "string \<Rightarrow> string \<Rightarrow> string \<Rightarrow> string" where
  "os_path_join3 a b c = os_path_join (os_path_join a b) c"

text \<open>\<open>os.path.basename(p)\<close>: what follows the last slash.\<close>

definition os_path_basename :: "string \<Rightarrow> string" where
  "os_path_basename p = rev (takeWhile (\<lambda>c. c \<noteq> CHR ''/'') (rev p))"

text \<open>
  \<open>os.path.dirname(p)\<close>: the part up to the last slash, with its trailing slashes
  removed unless it consists of slashes only.
\<close>

definition os_path_dirname :: "string \<Rightarrow> string" where
  "os_path_dirname p =
     (let head = rev (dropWhile (\<lambda>c. c \<noteq> CHR ''/'') (rev p))
      in if head \<noteq> [] \<and> head \<noteq> replicate (length head) CHR ''/''
         then rev (dropWhile (\<lambda>c. c = CHR ''/'') (rev head))
         else head)"

section \<open>The environment and what the script does to it\<close>

text \<open>
  What the script asks of its environment is a field of \<open>env\<close>: the answer of the
  operating system or of a library to a call, as a function of the arguments of the
  call. \<open>which\<close> tells whether \<open>shutil.which\<close> finds the executable;
  \<open>pip_freeze\<close> is the result of \<open>subprocess.check_output\<close> for
  \<open>python -m pip freeze\<close>, which raises CalledProcessError when the process returns a
  non-zero status; \<open>parse_input_args\<close> is what argparse makes of the command line
  (the configuration file and the release, or SystemExit); \<open>yaml_load\<close> opens and
  parses the configuration file; \<open>call\<close> is the status of a shell command run by
  \<open>subprocess.call\<close>; \<open>open_write\<close> is the exception, if any, of opening a file
  for writing. The output of pip is taken as text (\<open>decode\<close> is the identity).
\<close>

record file_directive =
  fd_src :: "string option"
  fd_dst :: "string option"

record repo =
  name :: "string option"
  remote :: "string option"
  branch :: "string option"
  generate_command :: "string option"
  gen_absolute_links :: bool
  files :: "file_directive list option"

record config =
  repos :: "repo list option"

record env =
  which :: "string \<Rightarrow> bool"
  pip_freeze :: "py_error + string"
  parse_input_args :: "py_error + string \<times> string"
  script_abspath :: string
  realpath :: "string \<Rightarrow> string"
  yaml_load :: "string \<Rightarrow> py_error + config"
  chdir :: "string \<Rightarrow> py_error option"
  is_darwin :: bool
  gettempdir :: string
  mkdtemp :: "string \<Rightarrow> py_error + string"
  call :: "string \<Rightarrow> int"
  glob :: "string \<Rightarrow> string list"
  isfile :: "string \<Rightarrow> bool"
  read_file :: "string \<Rightarrow> py_error + string"
  open_write :: "string \<Rightarrow> py_error option"

text \<open>
  What the script does is a list of events, in order: a line printed, a change of the
  current directory, a shell command run, a file opened for writing (and so emptied),
  content written to it.
\<close>

datatype event =
    Print string
  | Chdir string
  | Call string
  | OpenWrite string
  | Write string string

subsection \<open>The checks at import time\<close>

text \<open>
  The module-level statements fill \<open>error_msgs\<close>. \<open>check_output\<close> stands between
  the first check and the second; when it raises, the module raises.
\<close>

definition preflight :: "env \<Rightarrow> py_error + string list" where
  "preflight e =
     (let error_msgs1 =
            (if \<not> (which e ''pip'' \<or> which e ''pip3'')
             then [''Install pip so you can install PyYAML. https://pip.pypa.io/en/stable/installing'']
             else [])
      in case pip_freeze e of
           Inl ex \<Rightarrow> Inl ex
         | Inr reqs \<Rightarrow>
             let installed_packages = map (\<lambda>r. hd (py_split r ''=='')) (py_split_ws reqs);
                 error_msgs2 = error_msgs1 @
                   (if ''PyYAML'' \<notin> set installed_packages
                    then [''Please ensure the PyYAML package is installed; see https://pypi.org/project/PyYAML'']
                    else []);
                 error_msgs3 = error_msgs2 @
                   (if \<not> which e ''go''
                    then [''Go must be installed. See https://golang.org/doc/install'']
                    else [])
             in Inr error_msgs3)"

subsection \<open>\<open>process_file\<close>\<close>

text \<open>
  The destination of one matched source file (lines 136 to 139), and the message of
  the handler around the writing.
\<close>

definition output_path :: "string \<Rightarrow> string \<Rightarrow> string" where
  "output_path dst_path src =
     (if endswith dst_path ''/''
      then os_path_join dst_path (os_path_basename src)
      else dst_path)"

definition write_error :: "string \<Rightarrow> py_error \<Rightarrow> string" where
  "write_error dst ex = ''[Error] failed in writing target file '' @ dst @ '': '' @ error_str ex"

text \<open>
  The body of the loop over the matches of the pattern. Every exception raised while
  the file is open is caught by the handler, which prints it; the file then stays as
  opening it left it.
\<close>

definition process_match :: "env \<Rightarrow> string \<Rightarrow> string \<Rightarrow> bool \<Rightarrow> string \<Rightarrow> event list" where
  "process_match e dst_path repo_path gen_abs src =
     (if \<not> isfile e src then [Print (''[Error] skipping non-regular path '' @ src)]
      else case read_file e src of
        Inl ex \<Rightarrow> [Print ''[Error] failed in reading source file: '']
      | Inr content \<Rightarrow>
          let dst = output_path dst_path src in
          Print (''Writing doc: '' @ dst) #
          (case open_write e dst of
             Some ex \<Rightarrow> [Print (write_error dst ex)]
           | None \<Rightarrow>
               OpenWrite dst #
               (case (if gen_abs
                      then process_links content (repo_path @ ''/tree/master'') (os_path_dirname src)
                      else Inr content) of
                  Inl ex \<Rightarrow> [Print (write_error dst ex)]
                | Inr content1 \<Rightarrow>
                    if endswith dst ''kubectl.md'' then
                      Print ''Processing kubectl links'' #
                      (case process_kubectl_links content1 of
                         Inl ex \<Rightarrow> [Print (write_error dst ex)]
                       | Inr content2 \<Rightarrow> [Write dst content2])
                    else [Write dst content1])))"

definition process_file ::
  "env \<Rightarrow> string \<Rightarrow> string \<Rightarrow> string \<Rightarrow> string \<Rightarrow> string \<Rightarrow> bool \<Rightarrow> event list" where
  "process_file e src dst repo_path repo_dir root_dir gen_abs =
     (let pattern = os_path_join3 repo_dir repo_path src;
          dst_path = os_path_join root_dir dst
      in concat (map (process_match e dst_path repo_path gen_abs) (glob e pattern)))"

subsection \<open>\<open>main\<close>\<close>

text \<open>The release string, as lines 192 to 194 change it.\<close>

definition normalize_release :: "string \<Rightarrow> string" where
  "normalize_release k8s_release =
     (if length k8s_release = 4 then k8s_release @ ''.0'' else k8s_release)"

definition remote_regex :: regex where
  "remote_regex = cats [Bol, Lit CHR ''h'', Lit CHR ''t'', Lit CHR ''t'', Lit CHR ''p'', Lit CHR ''s'',
                        Lit CHR '':'', Lit CHR ''/'', Lit CHR ''/'', Grp ''prefix'' (Star Dot),
                        Lit CHR ''.'', Lit CHR ''g'', Lit CHR ''i'', Lit CHR ''t'', Eol]"

text \<open>
  A step of the script yields the events it caused and, when it raised an exception
  that nothing catches, that exception. The loop over the file directives of a
  repository: \<open>f['src']\<close> and \<open>f['dst']\<close> raise KeyError on a missing key.
\<close>

fun process_files ::
  "env \<Rightarrow> file_directive list \<Rightarrow> string \<Rightarrow> string \<Rightarrow> string \<Rightarrow> bool \<Rightarrow> event list \<times> py_error option" where
  "process_files e [] repo_path work_dir root_dir gen_abs = ([], None)"
| "process_files e (f # fs) repo_path work_dir root_dir gen_abs =
     (case fd_src f of
        None \<Rightarrow> ([], Some (KeyError ''src''))
      | Some src \<Rightarrow>
     (case fd_dst f of
        None \<Rightarrow> ([], Some (KeyError ''dst''))
      | Some dst \<Rightarrow>
          let evs = process_file e src dst repo_path work_dir root_dir gen_abs;
              (evs', r) = process_files e fs repo_path work_dir root_dir gen_abs
          in (evs @ evs', r)))"

text \<open>The shell command of the generator, with its four exports (lines 254 to 258).\<close>

definition gen_command :: "string \<Rightarrow> string \<Rightarrow> string \<Rightarrow> string \<Rightarrow> string" where
  "gen_command k8s_release work_dir root_dir gen_cmd =
     ''export K8S_RELEASE='' @ k8s_release @ [newline] @
     ''export GOPATH='' @ work_dir @ [newline] @
     ''export K8S_ROOT='' @ work_dir @ ''/src/k8s.io/kubernetes'' @ [newline] @
     ''export K8S_WEBROOT='' @ root_dir @ [newline] @ gen_cmd"

text \<open>
  The body of the loop over the repositories, in three parts as the script has them:
  the checks that end with \<open>continue\<close>, the clone, and what follows a clone that
  succeeded.
\<close>

definition after_clone ::
  "env \<Rightarrow> string \<Rightarrow> string \<Rightarrow> string \<Rightarrow> repo \<Rightarrow> string \<Rightarrow> string \<Rightarrow> event list \<times> py_error option" where
  "after_clone e k8s_release root_dir work_dir r repo_name repo_path =
     (case chdir e repo_path of
        Some ex \<Rightarrow> ([], Some ex)
      | None \<Rightarrow>
          let (gen_evs, gen_ok) =
                (case generate_command r of
                   None \<Rightarrow> ([], True)
                 | Some cmd \<Rightarrow>
                     let gen_cmd = gen_command k8s_release work_dir root_dir cmd;
                         evs = [Print (''Generating docs for '' @ repo_name @ '' with '' @ gen_cmd),
                                Call gen_cmd]
                     in if call e gen_cmd \<noteq> 0
                        then (evs @ [Print (''[Error] failed in generating docs for '' @ repo_name)], False)
                        else (evs, True))
          in if \<not> gen_ok then (Chdir repo_path # gen_evs, None)
             else (case chdir e root_dir of
                     Some ex \<Rightarrow> (Chdir repo_path # gen_evs, Some ex)
                   | None \<Rightarrow>
                       (case files r of
                          None \<Rightarrow> (Chdir repo_path # gen_evs @ [Chdir root_dir], Some (KeyError ''files''))
                        | Some fs \<Rightarrow>
                            let (evs, res) = process_files e fs repo_path work_dir root_dir
                                               (gen_absolute_links r)
                            in (Chdir repo_path # gen_evs @ [Chdir root_dir] @ evs, res))))"

definition clone_repo ::
  "env \<Rightarrow> string \<Rightarrow> string \<Rightarrow> string \<Rightarrow> repo \<Rightarrow> string \<Rightarrow> string \<Rightarrow> string \<Rightarrow> event list \<times> py_error option" where
  "clone_repo e k8s_release root_dir work_dir r repo_name repo_remote repo_path =
     (case chdir e work_dir of
        Some ex \<Rightarrow> ([], Some ex)
      | None \<Rightarrow>
          (case branch r of
             None \<Rightarrow> ([Chdir work_dir, Print (''Cloning repo '' @ repo_name)], Some (KeyError ''branch''))
           | Some br \<Rightarrow>
               let cmd = ''git clone --depth=1 -b '' @ br @ '' '' @ repo_remote @ '' '' @ repo_path;
                   evs = [Chdir work_dir, Print (''Cloning repo '' @ repo_name), Call cmd]
               in if call e cmd \<noteq> 0
                  then (evs @ [Print (''[Error] failed in cloning repo '' @ repo_name)], None)
                  else (let (evs', res) = after_clone e k8s_release root_dir work_dir r repo_name repo_path
                        in (evs @ evs', res))))"

definition repo_step ::
  "env \<Rightarrow> string \<Rightarrow> string \<Rightarrow> string \<Rightarrow> repo \<Rightarrow> event list \<times> py_error option" where
  "repo_step e k8s_release root_dir work_dir r =
     (case name r of
        None \<Rightarrow> ([Print ''[Error] repo missing name''], None)
      | Some repo_name \<Rightarrow>
     (case remote r of
        None \<Rightarrow> ([Print (''[Error] repo '' @ repo_name @ '' missing repo path'')], None)
      | Some repo_remote \<Rightarrow>
     (case re_search remote_regex repo_remote of
        None \<Rightarrow> ([Print (''[Error] repo path for '' @ repo_name @ '' is invalid'')], None)
      | Some matches \<Rightarrow>
     (case group matches ''prefix'' of
        None \<Rightarrow> ([], Some TypeError)
      | Some prefix_group \<Rightarrow>
          clone_repo e k8s_release root_dir work_dir r repo_name repo_remote
            (os_path_join ''src'' prefix_group)))))"

fun repos_loop ::
  "env \<Rightarrow> string \<Rightarrow> string \<Rightarrow> string \<Rightarrow> repo list \<Rightarrow> event list \<times> py_error option" where
  "repos_loop e k8s_release root_dir work_dir [] = ([], None)"
| "repos_loop e k8s_release root_dir work_dir (r # rs) =
     (case repo_step e k8s_release root_dir work_dir r of
        (evs, Some ex) \<Rightarrow> (evs, Some ex)
      | (evs, None) \<Rightarrow>
          let (evs', res) = repos_loop e k8s_release root_dir work_dir rs
          in (evs @ evs', res))"

text \<open>
  \<open>main\<close> returns \<open>-2\<close>, or nothing when it reaches its end. When
  \<open>tempfile.mkdtemp\<close> raises OSError, the handler formats \<open>work_dir\<close>, which has
  no value yet, and so raises UnboundLocalError.
\<close>

definition completed_message :: "string \<Rightarrow> string" where
  "completed_message work_dir =
     ''Completed docs update. Now run the following command to commit:'' @ [newline, newline] @
     '' git add .'' @ [newline] @ '' git commit -m <comment>'' @ [newline] @
     '' git push'' @ [newline] @ '' delete temp dir '' @ work_dir @ '' when done ''"

definition main_work ::
  "env \<Rightarrow> string \<Rightarrow> string \<Rightarrow> config \<Rightarrow> event list \<times> (py_error + int option)" where
  "main_work e k8s_release root_dir config_data =
     (case chdir e root_dir of
        Some ex \<Rightarrow> ([], Inl ex)
      | None \<Rightarrow>
          (case mkdtemp e (if is_darwin e then ''/tmp'' else gettempdir e) of
             Inl (OSError msg) \<Rightarrow>
               ([Chdir root_dir, Print ''Making temp work_dir''], Inl (UnboundLocalError ''work_dir''))
           | Inl ex \<Rightarrow> ([Chdir root_dir, Print ''Making temp work_dir''], Inl ex)
           | Inr work_dir \<Rightarrow>
               let evs = [Chdir root_dir, Print ''Making temp work_dir'',
                          Print (''Working dir '' @ work_dir)]
               in (case repos config_data of
                     None \<Rightarrow> (evs, Inl (KeyError ''repos''))
                   | Some rs \<Rightarrow>
                       (case repos_loop e k8s_release root_dir work_dir rs of
                          (evs', Some ex) \<Rightarrow> (evs @ evs', Inl ex)
                        | (evs', None) \<Rightarrow>
                            (evs @ evs' @ [Print (completed_message work_dir)], Inr None)))))"

definition main :: "env \<Rightarrow> string list \<Rightarrow> event list \<times> (py_error + int option)" where
  "main e error_msgs =
     (if length error_msgs > 0
      then (map (\<lambda>msg. Print (msg @ [newline])) error_msgs, Inr (Some (- 2)))
      else case parse_input_args e of
        Inl ex \<Rightarrow> ([], Inl ex)
      | Inr (config_file, k8s_release0) \<Rightarrow>
          let evs1 = [Print (''config_file is '' @ config_file),
                      Print (''k8s_release is '' @ k8s_release0)];
              k8s_release = normalize_release k8s_release0;
              evs2 = (if length k8s_release0 = 4
                      then [Print (''k8s_release updated to '' @ k8s_release)] else []);
              curr_dir = os_path_dirname (script_abspath e);
              root_dir = realpath e (os_path_join curr_dir ''..'');
              evs3 = [Print (''curr_dir '' @ curr_dir), Print (''root_dir '' @ root_dir)]
          in (case yaml_load e config_file of
                Inl ex \<Rightarrow>
                  (evs1 @ evs2 @ evs3 @
                     [Print (''[Error] failed in loading config file - '' @ error_str ex)],
                   Inr (Some (- 2)))
              | Inr config_data \<Rightarrow>
                  let (evs, res) = main_work e k8s_release root_dir config_data
                  in (evs1 @ evs2 @ evs3 @ evs, res)))"

text \<open>
  The whole run: the module-level checks, then \<open>sys.exit(main())\<close>. The exit status
  is 1 for an exception that nothing catches, 0 when \<open>main\<close> returns nothing, and
  the returned number modulo 256 otherwise.
\<close>

definition exit_status :: "py_error + int option \<Rightarrow> int" where
  "exit_status res =
     (case res of
        Inl (SystemExit n) \<Rightarrow> n mod 256
      | Inl ex \<Rightarrow> 1
      | Inr None \<Rightarrow> 0
      | Inr (Some n) \<Rightarrow> n mod 256)"

definition run :: "env \<Rightarrow> event list \<times> int" where
  "run e =
     (case preflight e of
        Inl ex \<Rightarrow> ([], 1)
      | Inr error_msgs \<Rightarrow>
          let (evs, res) = main e error_msgs in (evs, exit_status res))"

section \<open>Sample inputs\<close>

text \<open>
  A repository entry and an environment in which everything succeeds, used for the
  instances of the theorems: one file matches the pattern of the entry, and it holds
  one relative link. The variants are an environment without pip, where
  \<open>python -m pip freeze\<close> fails, and entries whose remote has an empty host or is not
  an https URL.
\<close>

definition sample_repo :: repo where
  "sample_repo =
     \<lparr> name = Some ''reference-docs'',
       remote = Some ''https://github.com/kubernetes-sigs/reference-docs.git'',
       branch = Some ''master'',
       generate_command = None,
       gen_absolute_links = True,
       files = Some [\<lparr> fd_src = Some ''docs/*.md'', fd_dst = Some ''content/en/docs/'' \<rparr>] \<rparr>"

definition sample_env :: env where
  "sample_env =
     \<lparr> which = (\<lambda>x. True),
       pip_freeze = Inr ''PyYAML==5.1.2'',
       parse_input_args = Inr (''reference.yml'', ''1.17''),
       script_abspath = ''/site/update-imported-docs/update-imported-docs.py'',
       realpath = (\<lambda>p. ''/site''),
       yaml_load = (\<lambda>f. Inr \<lparr> repos = Some [sample_repo] \<rparr>),
       chdir = (\<lambda>d. None),
       is_darwin = False,
       gettempdir = ''/tmp'',
       mkdtemp = (\<lambda>d. Inr (d @ ''/work'')),
       call = (\<lambda>c. 0),
       glob = (\<lambda>p. if p = ''/tmp/work/src/github.com/kubernetes-sigs/reference-docs/docs/*.md''
                    then [''/tmp/work/src/github.com/kubernetes-sigs/reference-docs/docs/a.md'']
                    else []),
       isfile = (\<lambda>p. True),
       read_file = (\<lambda>p. Inr ''[text](b.md)''),
       open_write = (\<lambda>p. None) \<rparr>"

definition no_pip_env :: env where
  "no_pip_env = sample_env \<lparr> which := (\<lambda>x. False), pip_freeze := Inl CalledProcessError \<rparr>"



section \<open>Notions used in the proofs\<close>


text \<open>
  The positions \<open>.*\<close> can stop at, as the input left after them: \<open>line_sfx s\<close>
  lists the proper suffixes of \<open>s\<close> reached by consuming characters of its first
  line, the shortest first; \<open>line_sfxs s\<close> adds \<open>s\<close> itself at the end. This is
  the order in which a greedy \<open>.*\<close> tries them, and the reverse of the order of a
  lazy one.
\<close>

fun line_sfx :: "string \<Rightarrow> string list" where
  "line_sfx [] = []"
| "line_sfx (c # cs) = (if c \<noteq> newline then line_sfx cs @ [cs] else [])"

definition line_sfxs :: "string \<Rightarrow> string list" where
  "line_sfxs s = line_sfx s @ [s]"

text \<open>The tail of both link patterns: \<open>\]\((?P<target>...)\)\<close>.\<close>

definition tail_greedy :: regex where
  "tail_greedy = Cat (Lit CHR '']'') (Cat (Lit CHR ''('') (Cat (Grp ''target'' (Star Dot)) (Lit CHR '')'')))"

definition tail_lazy :: regex where
  "tail_lazy = Cat (Lit CHR '']'') (Cat (Lit CHR ''('') (Cat (Grp ''target'' (StarLazy Dot)) (Lit CHR '')'')))"

text \<open>The non-empty suffixes of a list, the shortest first.\<close>

fun nsfx :: "'a list \<Rightarrow> 'a list list" where
  "nsfx [] = []"
| "nsfx (c # cs) = nsfx cs @ [c # cs]"


definition link_like :: "regex \<Rightarrow> bool" where
  "link_like r \<longleftrightarrow> r = link_regex \<or> r = kubectl_link_regex"



text \<open>The recursive equations are unfolded by hand in the proofs.\<close>

declare sub_from.simps [simp del]
declare py_split.simps [simp del]
declare rmatch.simps(8,9) [simp del]

section \<open>Properties of the matcher and of the substitution\<close>


lemma star_dot_Nil: "rmatch (Star Dot) (g, b, []) = [(g, b, [])]"
  by (simp add: rmatch.simps(8))

lemma star_dot_Cons:
  "rmatch (Star Dot) (g, b, c # cs) =
     (if c \<noteq> newline then rmatch (Star Dot) (g, False, cs) else []) @ [(g, b, c # cs)]"
  by (simp add: rmatch.simps(8))

lemma starlazy_dot_Nil: "rmatch (StarLazy Dot) (g, b, []) = [(g, b, [])]"
  by (simp add: rmatch.simps(9))

lemma starlazy_dot_Cons:
  "rmatch (StarLazy Dot) (g, b, c # cs) =
     (g, b, c # cs) # (if c \<noteq> newline then rmatch (StarLazy Dot) (g, False, cs) else [])"
  by (simp add: rmatch.simps(9))

lemma rmatch_star_dot:
  "rmatch (Star Dot) (g, b, s) = map (\<lambda>v. (g, False, v)) (line_sfx s) @ [(g, b, s)]"
  by (induction s arbitrary: b) (simp_all add: star_dot_Nil star_dot_Cons)

lemma rmatch_starlazy_dot:
  "rmatch (StarLazy Dot) (g, b, s) = (g, b, s) # map (\<lambda>v. (g, False, v)) (rev (line_sfx s))"
  by (induction s arbitrary: b) (simp_all add: starlazy_dot_Nil starlazy_dot_Cons)

lemma rmatch_suffix:
  "st' \<in> set (rmatch r st) \<Longrightarrow> suffix (snd (snd st')) (snd (snd st))"
proof (induction r st arbitrary: st' rule: rmatch.induct)
  case (2 c g b s)
  then show ?case by (cases s) (auto simp: suffix_Cons split: if_splits)
next
  case (3 g b s)
  then show ?case by (cases s) (auto simp: suffix_Cons split: if_splits)
next
  case (6 r1 r2 g b s)
  from "6.prems" obtain y where y: "y \<in> set (rmatch r1 (g, b, s))" "st' \<in> set (rmatch r2 y)"
    by auto
  from "6.IH"(1)[OF y(1)] "6.IH"(2)[OF y(1) y(2)] show ?case
    by (auto intro: suffix_order.trans)
next
  case (8 r g b s)
  from "8.prems" have "st' = (g, b, s) \<or>
      (\<exists>g' b' s'. (g', b', s') \<in> set (rmatch r (g, b, s)) \<and> length s' < length s \<and>
        st' \<in> set (rmatch (Star r) (g', b', s')))"
    by (subst (asm) rmatch.simps(8)) (auto split: if_splits)
  then consider "st' = (g, b, s)"
    | g' b' s' where "(g', b', s') \<in> set (rmatch r (g, b, s))" "length s' < length s"
        "st' \<in> set (rmatch (Star r) (g', b', s'))"
    by blast
  then show ?case
  proof cases
    case 1
    then show ?thesis by simp
  next
    case 2
    from "8.IH"(1)[OF 2(1)] "8.IH"(2)[OF 2(1) refl refl 2(2) 2(3)] show ?thesis
      by (auto intro: suffix_order.trans)
  qed
next
  case (9 r g b s)
  from "9.prems" have "st' = (g, b, s) \<or>
      (\<exists>g' b' s'. (g', b', s') \<in> set (rmatch r (g, b, s)) \<and> length s' < length s \<and>
        st' \<in> set (rmatch (StarLazy r) (g', b', s')))"
    by (subst (asm) rmatch.simps(9)) (auto split: if_splits)
  then consider "st' = (g, b, s)"
    | g' b' s' where "(g', b', s') \<in> set (rmatch r (g, b, s))" "length s' < length s"
        "st' \<in> set (rmatch (StarLazy r) (g', b', s'))"
    by blast
  then show ?case
  proof cases
    case 1
    then show ?thesis by simp
  next
    case 2
    from "9.IH"(1)[OF 2(1)] "9.IH"(2)[OF 2(1) refl refl 2(2) 2(3)] show ?thesis
      by (auto intro: suffix_order.trans)
  qed
qed (auto split: if_splits)



lemma match_here_length:
  assumes "match_here r b s = Some (g, s')"
  shows "length s' \<le> length s"
proof -
  from assms obtain b' where "(g, b', s') \<in> set (rmatch r ([], b, s))"
    by (cases "rmatch r ([], b, s)") (auto simp: match_here_def)
  from rmatch_suffix[OF this] show ?thesis by (auto dest: suffix_length_le)
qed

lemma sub_None_Nil:
  "match_here r b [] = None \<Longrightarrow> sub_from r repl b [] = Inr []"
  by (subst sub_from.simps) simp

lemma sub_None_Cons:
  "match_here r b (c # cs) = None \<Longrightarrow>
   sub_from r repl b (c # cs) =
     (case sub_from r repl False cs of Inl e \<Rightarrow> Inl e | Inr out \<Rightarrow> Inr (c # out))"
  by (subst sub_from.simps) simp

lemma sub_Some_err:
  "match_here r b s = Some (g, s') \<Longrightarrow> repl g = Inl e \<Longrightarrow> sub_from r repl b s = Inl e"
  by (subst sub_from.simps) simp

lemma sub_Some_progress:
  "match_here r b s = Some (g, s') \<Longrightarrow> repl g = Inr t \<Longrightarrow> length s' < length s \<Longrightarrow>
   sub_from r repl b s =
     (case sub_from r repl False s' of Inl e \<Rightarrow> Inl e | Inr out \<Rightarrow> Inr (t @ out))"
  by (subst sub_from.simps) simp

lemma sub_Some_stuck:
  "match_here r b (c # cs) = Some (g, s') \<Longrightarrow> repl g = Inr t \<Longrightarrow> \<not> length s' < length (c # cs) \<Longrightarrow>
   sub_from r repl b (c # cs) =
     (case sub_from r repl False cs of Inl e \<Rightarrow> Inl e | Inr out \<Rightarrow> Inr (t @ c # out))"
  by (subst sub_from.simps) simp


lemma sub_from_total:
  assumes "\<And>b s g s'. match_here r b s = Some (g, s') \<Longrightarrow> \<exists>t. repl g = Inr t"
  shows "\<exists>out. sub_from r repl b s = Inr out"
proof (induction "length s" arbitrary: s b rule: less_induct)
  case less
  show ?case
  proof (cases "match_here r b s")
    case None
    show ?thesis
    proof (cases s)
      case Nil
      with None show ?thesis by (simp add: sub_None_Nil)
    next
      case (Cons c cs)
      with less[of cs False] obtain out where "sub_from r repl False cs = Inr out" by auto
      with None Cons show ?thesis by (simp add: sub_None_Cons)
    qed
  next
    case (Some p)
    obtain g s' where p: "p = (g, s')" by (cases p)
    have m: "match_here r b s = Some (g, s')" using Some p by simp
    from assms[OF m] obtain t where t: "repl g = Inr t" by auto
    show ?thesis
    proof (cases "length s' < length s")
      case True
      with less[OF True, of False] obtain out where "sub_from r repl False s' = Inr out" by auto
      then show ?thesis using sub_Some_progress[where repl = repl, OF m t True] by simp
    next
      case False
      show ?thesis
      proof (cases s)
        case Nil
        then show ?thesis using m t by (subst sub_from.simps) simp
      next
        case (Cons c cs)
        with less[of cs False] obtain out where "sub_from r repl False cs = Inr out" by auto
        then show ?thesis using sub_Some_stuck[where repl = repl, OF m[unfolded Cons] t] False Cons by simp
      qed
    qed
  qed
qed

section \<open>The heading pattern\<close>

lemma h1_not_at_start: "match_here h1_regex False s = None"
  by (simp add: match_here_def h1_regex_def)

lemma sub_h1_False: "sub_from h1_regex repl False s = Inr s"
proof (induction s)
  case Nil
  show ?case by (subst sub_from.simps) (simp add: h1_not_at_start)
next
  case (Cons c cs)
  show ?case by (subst sub_from.simps) (simp add: h1_not_at_start Cons.IH)
qed

lemma concat_map_if:
  "concat (map (\<lambda>x. if P x then [f x] else []) xs) = map f (filter P xs)"
  by (induction xs) simp_all

lemma filter_nl_line_sfx:
  "filter (\<lambda>v. startswith v [newline]) (line_sfx x @ [x]) =
     (if newline \<in> set x then [dropWhile (\<lambda>c. c \<noteq> newline) x] else [])"
  by (induction x) (auto simp: startswith_def)

lemma rmatch_Lit:
  "rmatch (Lit c) (g, b, v) = (if startswith v [c] then [(g, False, tl v)] else [])"
  by (cases v) (auto simp: startswith_def)

lemma take_length_dropWhile:
  "take (length x - length (dropWhile P x)) x = takeWhile P x"
  by (induction x) (simp_all add: Suc_diff_le length_dropWhile_le)

lemma h1_match_heading:
  "rmatch h1_regex ([], True, CHR ''#'' # CHR '' '' # x) =
     (if newline \<in> set x
      then [([(''1'', ''# '' @ takeWhile (\<lambda>c. c \<noteq> newline) x)], False, tl (dropWhile (\<lambda>c. c \<noteq> newline) x))]
      else [])"
proof -
  have "rmatch h1_regex ([], True, CHR ''#'' # CHR '' '' # x) =
        concat (map (rmatch (Lit newline))
          (map (\<lambda>(g', b', s'). ((''1'', take (Suc (Suc (length x)) - length s') (CHR ''#'' # CHR '' '' # x)) # g', b', s'))
               (rmatch (Star Dot) ([], False, x))))"
    by (simp add: h1_regex_def newline_def)
  also have "\<dots> = concat (map (\<lambda>v. if startswith v [newline]
                 then [([(''1'', take (Suc (Suc (length x)) - length v) (CHR ''#'' # CHR '' '' # x))], False, tl v)] else [])
                 (line_sfx x @ [x]))"
    by (simp add: rmatch_star_dot rmatch_Lit comp_def del: rmatch.simps)
  also have "\<dots> = map (\<lambda>v. ([(''1'', take (Suc (Suc (length x)) - length v) (CHR ''#'' # CHR '' '' # x))], False, tl v))
                 (filter (\<lambda>v. startswith v [newline]) (line_sfx x @ [x]))"
    by (rule concat_map_if)
  also have "\<dots> = (if newline \<in> set x
      then [([(''1'', ''# '' @ takeWhile (\<lambda>c. c \<noteq> newline) x)], False, tl (dropWhile (\<lambda>c. c \<noteq> newline) x))]
      else [])"
  proof -
    have "Suc (Suc (length x)) - length (dropWhile (\<lambda>c. c \<noteq> newline) x)
          = Suc (Suc (length x - length (dropWhile (\<lambda>c. c \<noteq> newline) x)))"
      using length_dropWhile_le [of "\<lambda>c. c \<noteq> newline" x] by arith
    then show ?thesis
      by (simp only: filter_nl_line_sfx) (simp add: take_length_dropWhile)
  qed
  finally show ?thesis .
qed


lemma h1_match_other:
  assumes "\<not> startswith s ''# ''"
  shows "rmatch h1_regex ([], True, s) = (if startswith s [newline] then [([], False, tl s)] else [])"
proof (cases s)
  case Nil
  then show ?thesis by (simp add: h1_regex_def startswith_def)
next
  case (Cons c t)
  show ?thesis
  proof (cases "c = CHR ''#''")
    case True
    with assms Cons have "t = [] \<or> hd t \<noteq> CHR '' ''"
      by (cases t) (auto simp: startswith_def)
    then show ?thesis using True Cons
      by (cases t) (auto simp: h1_regex_def startswith_def newline_def)
  next
    case False
    then show ?thesis using Cons
      by (simp add: h1_regex_def startswith_def)
  qed
qed

lemma h1_match_True:
  "match_here h1_regex True s =
     (if startswith s [newline] then Some ([], tl s)
      else if startswith s ''# '' \<and> newline \<in> set s
           then Some ([(''1'', takeWhile (\<lambda>c. c \<noteq> newline) s)], tl (dropWhile (\<lambda>c. c \<noteq> newline) s))
           else None)"
proof (cases "startswith s ''# ''")
  case True
  then obtain x where s: "s = CHR ''#'' # CHR '' '' # x"
    by (auto simp: startswith_def prefix_def)
  show ?thesis
    unfolding match_here_def s h1_match_heading
    by (simp add: startswith_def newline_def)
next
  case False
  then show ?thesis
    unfolding match_here_def
    by (simp add: h1_match_other)
qed

lemma length_tl_dropWhile:
  assumes "x \<in> set s" "\<not> P x"
  shows "length (tl (dropWhile P s)) < length s"
proof -
  have "dropWhile P s \<noteq> []" using assms by (auto simp: dropWhile_eq_Nil_conv)
  then have "length (tl (dropWhile P s)) < length (dropWhile P s)" by (cases "dropWhile P s") simp_all
  also have "\<dots> \<le> length s" by (rule length_dropWhile_le)
  finally show ?thesis .
qed

lemma strip_h1_eq:
  "strip_h1 s =
     Inr (if startswith s [newline] then tl s
          else if startswith s ''# '' \<and> newline \<in> set s
               then tl (dropWhile (\<lambda>c. c \<noteq> newline) s)
               else s)"
proof -
  consider (nl) "startswith s [newline]"
    | (h) "\<not> startswith s [newline]" "startswith s ''# ''" "newline \<in> set s"
    | (o) "\<not> startswith s [newline]" "\<not> (startswith s ''# '' \<and> newline \<in> set s)"
    by blast
  then show ?thesis
  proof cases
    case nl
    then obtain t where "s = newline # t" by (auto simp: startswith_def prefix_def)
    then show ?thesis
      unfolding strip_h1_def re_sub_def
      by (subst sub_from.simps) (simp add: h1_match_True sub_h1_False startswith_def)
  next
    case h
    have "length (tl (dropWhile (\<lambda>c. c \<noteq> newline) s)) < length s"
      using h(3) by (rule length_tl_dropWhile) simp
    then show ?thesis using h
      unfolding strip_h1_def re_sub_def
      by (subst sub_from.simps) (simp add: h1_match_True sub_h1_False)
  next
    case o
    then have m: "match_here h1_regex True s = None"
      by (simp add: h1_match_True)
    have "sub_from h1_regex (\<lambda>m. Inr []) True s = Inr s"
      by (subst sub_from.simps) (simp add: m sub_h1_False split: list.split)
    then show ?thesis using o
      unfolding strip_h1_def re_sub_def by auto
  qed
qed

section \<open>The link patterns\<close>

lemma set_line_sfx:
  "v \<in> set (line_sfx s) \<longleftrightarrow> (\<exists>u. u \<noteq> [] \<and> newline \<notin> set u \<and> s = u @ v)"
proof (induction s)
  case Nil
  show ?case by simp
next
  case (Cons c cs)
  show ?case
  proof (cases "c = newline")
    case True
    then show ?thesis by (auto simp: Cons_eq_append_conv)
  next
    case False
    have "(\<exists>u. u \<noteq> [] \<and> newline \<notin> set u \<and> c # cs = u @ v) \<longleftrightarrow>
          (v = cs \<or> (\<exists>u. u \<noteq> [] \<and> newline \<notin> set u \<and> cs = u @ v))"
    proof
      assume "\<exists>u. u \<noteq> [] \<and> newline \<notin> set u \<and> c # cs = u @ v"
      then obtain u where u: "u \<noteq> []" "newline \<notin> set u" "c # cs = u @ v" by blast
      then obtain u' where u': "u = c # u'" "cs = u' @ v" by (cases u) auto
      show "v = cs \<or> (\<exists>u. u \<noteq> [] \<and> newline \<notin> set u \<and> cs = u @ v)"
        using u u' by (cases "u' = []") auto
    next
      assume "v = cs \<or> (\<exists>u. u \<noteq> [] \<and> newline \<notin> set u \<and> cs = u @ v)"
      then show "\<exists>u. u \<noteq> [] \<and> newline \<notin> set u \<and> c # cs = u @ v"
      proof
        assume "v = cs"
        then have "[c] \<noteq> [] \<and> newline \<notin> set [c] \<and> c # cs = [c] @ v" using False by simp
        then show ?thesis by blast
      next
        assume "\<exists>u. u \<noteq> [] \<and> newline \<notin> set u \<and> cs = u @ v"
        then obtain u where "u \<noteq> []" "newline \<notin> set u" "cs = u @ v" by blast
        then have "c # u \<noteq> [] \<and> newline \<notin> set (c # u) \<and> c # cs = (c # u) @ v" using False by simp
        then show ?thesis by blast
      qed
    qed
    then show ?thesis using False Cons.IH by auto
  qed
qed

lemma grp_star_dot:
  "rmatch (Grp n (Star Dot)) (g, False, s) =
     map (\<lambda>v. ((n, take (length s - length v) s) # g, False, v)) (line_sfxs s)"
  by (simp add: rmatch_star_dot line_sfxs_def)

lemma grp_starlazy_dot:
  "rmatch (Grp n (StarLazy Dot)) (g, False, s) =
     map (\<lambda>v. ((n, take (length s - length v) s) # g, False, v)) (rev (line_sfxs s))"
  by (simp add: rmatch_starlazy_dot line_sfxs_def)

lemma grp_star_dot_lit:
  "rmatch (Cat (Grp n (Star Dot)) (Lit c)) (g, False, w) =
     map (\<lambda>v. ((n, take (length w - length v) w) # g, False, tl v))
         (filter (\<lambda>v. startswith v [c]) (line_sfxs w))"
proof -
  have "rmatch (Cat (Grp n (Star Dot)) (Lit c)) (g, False, w) =
        concat (map (\<lambda>v. if startswith v [c] then [((n, take (length w - length v) w) # g, False, tl v)] else [])
                    (line_sfxs w))"
    unfolding rmatch.simps(6) grp_star_dot by (simp add: rmatch_Lit comp_def del: rmatch.simps)
  then show ?thesis by (simp only: concat_map_if)
qed

lemma grp_starlazy_dot_lit:
  "rmatch (Cat (Grp n (StarLazy Dot)) (Lit c)) (g, False, w) =
     map (\<lambda>v. ((n, take (length w - length v) w) # g, False, tl v))
         (filter (\<lambda>v. startswith v [c]) (rev (line_sfxs w)))"
proof -
  have "rmatch (Cat (Grp n (StarLazy Dot)) (Lit c)) (g, False, w) =
        concat (map (\<lambda>v. if startswith v [c] then [((n, take (length w - length v) w) # g, False, tl v)] else [])
                    (rev (line_sfxs w)))"
    unfolding rmatch.simps(6) grp_starlazy_dot by (simp add: rmatch_Lit comp_def del: rmatch.simps)
  then show ?thesis by (simp only: concat_map_if)
qed

lemma link_regex_tail: "link_regex = Cat (Lit CHR ''['') (Cat (Grp ''ankor'' (Star Dot)) tail_greedy)"
  by (simp add: link_regex_def tail_greedy_def)

lemma kubectl_link_regex_tail:
  "kubectl_link_regex = Cat (Lit CHR ''['') (Cat (Grp ''ankor'' (Star Dot)) tail_lazy)"
  by (simp add: kubectl_link_regex_def tail_lazy_def)

lemma lit_cat:
  "rmatch (Cat (Lit c) r) (g, b, s) =
     (case s of [] \<Rightarrow> [] | x # xs \<Rightarrow> if x = c then rmatch r (g, False, xs) else [])"
  by (cases s) simp_all

lemma tail_unfold:
  "rmatch (Cat (Lit CHR '']'') (Cat (Lit CHR ''('') r)) (g, b, v) =
     (if startswith v '']('' then rmatch r (g, False, drop 2 v) else [])"
  by (simp add: lit_cat startswith_def split: list.splits del: rmatch.simps(6))

lemma tail_greedy_eq:
  "rmatch tail_greedy (g, b, v) =
     (if startswith v '']('' then
        map (\<lambda>x. ((''target'', take (length (drop 2 v) - length x) (drop 2 v)) # g, False, tl x))
            (filter (\<lambda>x. startswith x '')'') (line_sfxs (drop 2 v)))
      else [])"
  unfolding tail_greedy_def tail_unfold grp_star_dot_lit ..

lemma tail_lazy_eq:
  "rmatch tail_lazy (g, b, v) =
     (if startswith v '']('' then
        map (\<lambda>x. ((''target'', take (length (drop 2 v) - length x) (drop 2 v)) # g, False, tl x))
            (filter (\<lambda>x. startswith x '')'') (rev (line_sfxs (drop 2 v))))
      else [])"
  unfolding tail_lazy_def tail_unfold grp_starlazy_dot_lit ..

lemma head_unfold:
  "rmatch (Cat (Lit CHR ''['') (Cat (Grp ''ankor'' (Star Dot)) r)) (g, b, s) =
     (if startswith s ''['' then
        concat (map (\<lambda>v. rmatch r ((''ankor'', take (length (tl s) - length v) (tl s)) # g, False, v))
                    (line_sfxs (tl s)))
      else [])"
proof -
  have "\<And>s1. rmatch (Cat (Grp ''ankor'' (Star Dot)) r) (g, False, s1) =
        concat (map (\<lambda>v. rmatch r ((''ankor'', take (length s1 - length v) s1) # g, False, v))
                    (line_sfxs s1))"
    unfolding rmatch.simps(6) grp_star_dot by (simp add: comp_def del: rmatch.simps)
  then show ?thesis
    by (simp add: lit_cat startswith_def split: list.splits del: rmatch.simps(6))
qed

lemma set_line_sfx_full:
  "v \<in> set (line_sfxs s) \<longleftrightarrow> (\<exists>u. newline \<notin> set u \<and> s = u @ v)"
proof -
  have "(\<exists>u. newline \<notin> set u \<and> s = u @ v) \<longleftrightarrow>
        (v = s \<or> (\<exists>u. u \<noteq> [] \<and> newline \<notin> set u \<and> s = u @ v))"
    by (metis append_Nil empty_iff list.set(1))
  then show ?thesis by (simp add: set_line_sfx line_sfxs_def)
qed

lemma tail_sound:
  assumes "(g', b', s') \<in> set (rmatch tail_greedy (g, b, v)) \<or> (g', b', s') \<in> set (rmatch tail_lazy (g, b, v))"
  shows "\<exists>t. g' = (''target'', t) # g \<and> v = '']('' @ t @ '')'' @ s' \<and> newline \<notin> set t"
proof -
  let ?w = "drop 2 v"
  from assms have sw: "startswith v ''](''"
    unfolding tail_greedy_eq tail_lazy_eq by (auto split: if_splits)
  then have v: "v = '']('' @ ?w" by (auto simp: startswith_def prefix_def)
  from assms sw have "(g', b', s') \<in>
      (\<lambda>x. ((''target'', take (length ?w - length x) ?w) # g, False, tl x)) `
        {x \<in> set (line_sfxs ?w). startswith x '')''}"
    unfolding tail_greedy_eq tail_lazy_eq by (auto split: if_splits)
  then obtain x where x: "x \<in> set (line_sfxs ?w)" "startswith x '')''"
     "g' = (''target'', take (length ?w - length x) ?w) # g" "s' = tl x"
    by blast
  from x(1) obtain t where t: "newline \<notin> set t" "?w = t @ x"
    unfolding set_line_sfx_full by blast
  from x(2) have "x = '')'' @ tl x" by (cases x) (auto simp: startswith_def)
  with x(3,4) t v show ?thesis by (metis append_eq_conv_conj length_append add_diff_cancel_right')
qed

lemma head_sound:
  assumes "(g', b', s') \<in> set (rmatch (Cat (Lit CHR ''['') (Cat (Grp ''ankor'' (Star Dot)) r)) (g, b, s))"
  shows "\<exists>a v. s = ''['' @ a @ v \<and> newline \<notin> set a \<and>
           (g', b', s') \<in> set (rmatch r ((''ankor'', a) # g, False, v))"
proof -
  let ?s1 = "tl s"
  from assms have sw: "startswith s ''[''"
    unfolding head_unfold by (auto split: if_splits)
  then have s: "s = ''['' @ ?s1" by (cases s) (auto simp: startswith_def)
  from assms sw obtain v where v: "v \<in> set (line_sfxs ?s1)"
     "(g', b', s') \<in> set (rmatch r ((''ankor'', take (length ?s1 - length v) ?s1) # g, False, v))"
    unfolding head_unfold set_concat set_map by (auto split: if_splits)
  from v(1) obtain a where a: "newline \<notin> set a" "?s1 = a @ v"
    unfolding set_line_sfx_full by blast
  then have "take (length ?s1 - length v) ?s1 = a" by simp
  with v(2) a s show ?thesis by metis
qed

lemma link_sound:
  assumes "(g', b', s') \<in> set (rmatch link_regex (g, b, s)) \<or>
           (g', b', s') \<in> set (rmatch kubectl_link_regex (g, b, s))"
  shows "\<exists>a t. g' = (''target'', t) # (''ankor'', a) # g \<and>
               s = ''['' @ a @ '']('' @ t @ '')'' @ s' \<and> newline \<notin> set a \<and> newline \<notin> set t"
proof -
  from assms obtain a v where av: "s = ''['' @ a @ v" "newline \<notin> set a"
    "(g', b', s') \<in> set (rmatch tail_greedy ((''ankor'', a) # g, False, v)) \<or>
     (g', b', s') \<in> set (rmatch tail_lazy ((''ankor'', a) # g, False, v))"
    unfolding link_regex_tail kubectl_link_regex_tail
    by (blast dest: head_sound)
  from tail_sound[OF av(3)] av(1,2) show ?thesis by auto
qed

lemma match_here_mem:
  "match_here r b s = Some (g, s') \<Longrightarrow> \<exists>b'. (g, b', s') \<in> set (rmatch r ([], b, s))"
  by (cases "rmatch r ([], b, s)") (auto simp: match_here_def)

lemma link_match_sound:
  assumes "match_here link_regex b s = Some (g, s') \<or> match_here kubectl_link_regex b s = Some (g, s')"
  shows "\<exists>a t. g = [(''target'', t), (''ankor'', a)] \<and>
               s = ''['' @ a @ '']('' @ t @ '')'' @ s' \<and> newline \<notin> set a \<and> newline \<notin> set t"
  using assms link_sound[of g _ s' "[]" b s] by (blast dest: match_here_mem)

lemma analyze_total:
  "\<exists>out. analyze rp sp [(''target'', t), (''ankor'', a)] = Inr out"
  by (simp add: analyze_def group_def)

lemma rewrite_links_total: "\<exists>c1. rewrite_links content rp sp = Inr c1"
  unfolding rewrite_links_def re_sub_def
proof (rule sub_from_total)
  fix b s g s'
  assume "match_here link_regex b s = Some (g, s')"
  then obtain a t where "g = [(''target'', t), (''ankor'', a)]"
    using link_match_sound by blast
  then show "\<exists>t. analyze rp sp g = Inr t" using analyze_total by simp
qed

section \<open>The match that the link patterns report\<close>

lemma line_sfxs_append:
  "newline \<notin> set u \<Longrightarrow> line_sfxs (u @ v) = line_sfxs v @ map (\<lambda>u2. u2 @ v) (nsfx u)"
  by (induction u) (auto simp: line_sfxs_def)

lemma nsfx_mem: "x \<in> set (nsfx u) \<Longrightarrow> x \<noteq> [] \<and> hd x \<in> set u"
  by (induction u) auto

lemma no_tail_greedy:
  assumes "\<not> sublist '']('' t" "CHR '')'' \<notin> set post"
  shows "t @ '')'' @ post \<noteq> p @ '']('' @ q @ '')'' @ r"
  using assms
proof (induction t arbitrary: p)
  case Nil
  show ?case
  proof (cases p)
    case Nil
    then show ?thesis by simp
  next
    case (Cons c p')
    show ?thesis
    proof
      assume "[] @ '')'' @ post = p @ '']('' @ q @ '')'' @ r"
      then have "post = p' @ '']('' @ q @ '')'' @ r" using Cons by simp
      then have "CHR '')'' \<in> set post" by simp
      with Nil.prems show False by simp
    qed
  qed
next
  case (Cons c t')
  have nt: "\<not> sublist '']('' t'" using Cons.prems(1) by (auto simp: sublist_Cons_right)
  show ?case
  proof (cases p)
    case Nil
    show ?thesis
    proof
      assume "(c # t') @ '')'' @ post = p @ '']('' @ q @ '')'' @ r"
      then have e: "c = CHR '']''" "t' @ '')'' @ post = ''('' @ q @ '')'' @ r" using Nil by simp_all
      then obtain t'' where "t' = CHR ''('' # t''" by (cases t') auto
      then have "prefix '']('' (c # t')" using e by simp
      with Cons.prems(1) show False by (auto dest: prefix_imp_sublist)
    qed
  next
    case (Cons d p')
    show ?thesis
    proof
      assume "(c # t') @ '')'' @ post = p @ '']('' @ q @ '')'' @ r"
      then have "t' @ '')'' @ post = p' @ '']('' @ q @ '')'' @ r" using Cons by simp
      with Cons.IH[OF nt Cons.prems(2)] show False by blast
    qed
  qed
qed

lemma no_tail_lazy:
  assumes "\<not> sublist '']('' t" "\<not> sublist '']('' post"
  shows "t @ '')'' @ post \<noteq> p @ '']('' @ q"
  using assms
proof (induction t arbitrary: p)
  case Nil
  show ?case
  proof (cases p)
    case Nil
    then show ?thesis by simp
  next
    case (Cons c p')
    show ?thesis
    proof
      assume "[] @ '')'' @ post = p @ '']('' @ q"
      then have "post = p' @ '']('' @ q" using Cons by simp
      then have "sublist '']('' post" unfolding sublist_def by blast
      with Nil.prems show False by simp
    qed
  qed
next
  case (Cons c t')
  have nt: "\<not> sublist '']('' t'" using Cons.prems(1) by (auto simp: sublist_Cons_right)
  show ?case
  proof (cases p)
    case Nil
    show ?thesis
    proof
      assume "(c # t') @ '')'' @ post = p @ '']('' @ q"
      then have e: "c = CHR '']''" "t' @ '')'' @ post = ''('' @ q" using Nil by simp_all
      then obtain t'' where "t' = CHR ''('' # t''" by (cases t') auto
      then have "prefix '']('' (c # t')" using e by simp
      with Cons.prems(1) show False by (auto dest: prefix_imp_sublist)
    qed
  next
    case (Cons d p')
    show ?thesis
    proof
      assume "(c # t') @ '')'' @ post = p @ '']('' @ q"
      then have "t' @ '')'' @ post = p' @ '']('' @ q" using Cons by simp
      with Cons.IH[OF nt Cons.prems(2)] show False by blast
    qed
  qed
qed


lemma concat_map_Nil: "(\<And>x. x \<in> set xs \<Longrightarrow> f x = []) \<Longrightarrow> concat (map f xs) = []"
  by (induction xs) auto

lemma filter_Nil: "(\<And>x. x \<in> set xs \<Longrightarrow> \<not> P x) \<Longrightarrow> filter P xs = []"
  by (induction xs) auto

lemma tail_fails_inside:
  assumes x: "x \<in> set (line_sfx ('']('' @ z))"
    and nz: "\<And>p q r. z \<noteq> p @ '']('' @ q @ '')'' @ r"
  shows "rmatch tail_greedy (g, b, x) = []" and "rmatch tail_lazy (g, b, x) = []"
proof -
  from x obtain u where u: "u \<noteq> []" "'']('' @ z = u @ x"
    unfolding set_line_sfx by blast
  have no: "\<And>t s'. x \<noteq> '']('' @ t @ '')'' @ s'"
  proof
    fix t s' assume e: "x = '']('' @ t @ '')'' @ s'"
    from u obtain u' where u': "u = CHR '']'' # u'" "CHR ''('' # z = u' @ x" by (cases u) auto
    show False
    proof (cases u')
      case Nil
      with u' e show False by simp
    next
      case (Cons c u'')
      with u' e have "z = u'' @ '']('' @ t @ '')'' @ s'" by simp
      with nz show False by blast
    qed
  qed
  show "rmatch tail_greedy (g, b, x) = []"
  proof (rule ccontr)
    assume "rmatch tail_greedy (g, b, x) \<noteq> []"
    then obtain g' b' s' where "(g', b', s') \<in> set (rmatch tail_greedy (g, b, x))"
      by (cases "rmatch tail_greedy (g, b, x)") auto
    with tail_sound[of g' b' s' g b x] no show False by blast
  qed
  show "rmatch tail_lazy (g, b, x) = []"
  proof (rule ccontr)
    assume "rmatch tail_lazy (g, b, x) \<noteq> []"
    then obtain g' b' s' where "(g', b', s') \<in> set (rmatch tail_lazy (g, b, x))"
      by (cases "rmatch tail_lazy (g, b, x)") auto
    with tail_sound[of g' b' s' g b x] no show False by blast
  qed
qed

lemma head_first:
  assumes na: "newline \<notin> set a"
    and fail: "\<And>x g b. x \<in> set (line_sfx v0) \<Longrightarrow> rmatch r (g, b, x) = []"
    and hit: "rmatch r ((''ankor'', a) # g, False, v0) = X # others"
  shows "\<exists>rest. rmatch (Cat (Lit CHR ''['') (Cat (Grp ''ankor'' (Star Dot)) r)) (g, b, ''['' @ a @ v0) = X # rest"
proof -
  let ?F = "\<lambda>v. rmatch r ((''ankor'', take (length (a @ v0) - length v) (a @ v0)) # g, False, v)"
  have "rmatch (Cat (Lit CHR ''['') (Cat (Grp ''ankor'' (Star Dot)) r)) (g, b, ''['' @ a @ v0)
        = concat (map ?F (line_sfxs (a @ v0)))"
    unfolding head_unfold by (simp add: startswith_def)
  also have "line_sfxs (a @ v0) = line_sfx v0 @ [v0] @ map (\<lambda>u2. u2 @ v0) (nsfx a)"
    using na by (simp add: line_sfxs_append) (simp add: line_sfxs_def)
  also have "concat (map ?F (line_sfx v0 @ [v0] @ map (\<lambda>u2. u2 @ v0) (nsfx a)))
             = concat (map ?F (line_sfx v0)) @ ?F v0 @ concat (map ?F (map (\<lambda>u2. u2 @ v0) (nsfx a)))"
    by simp
  also have "concat (map ?F (line_sfx v0)) = []"
    by (rule concat_map_Nil) (rule fail)
  also have "?F v0 = X # others" using hit by simp
  finally show ?thesis by simp
qed

lemma filter_greedy_first:
  assumes "newline \<notin> set t" "\<And>x. x \<in> set (line_sfx w0) \<Longrightarrow> \<not> P x" "P w0"
  shows "\<exists>others. filter P (line_sfxs (t @ w0)) = w0 # others"
proof -
  have "line_sfxs (t @ w0) = line_sfx w0 @ [w0] @ map (\<lambda>u2. u2 @ w0) (nsfx t)"
    using assms(1) by (simp add: line_sfxs_append) (simp add: line_sfxs_def)
  moreover have "filter P (line_sfx w0) = []"
    by (rule filter_Nil) (rule assms(2))
  ultimately show ?thesis using assms(3) by simp
qed

lemma filter_lazy_first:
  assumes "newline \<notin> set t" "\<And>u2. u2 \<in> set (nsfx t) \<Longrightarrow> \<not> P (u2 @ w0)" "P w0"
  shows "\<exists>others. filter P (rev (line_sfxs (t @ w0))) = w0 # others"
proof -
  have "line_sfxs (t @ w0) = line_sfx w0 @ [w0] @ map (\<lambda>u2. u2 @ w0) (nsfx t)"
    using assms(1) by (simp add: line_sfxs_append) (simp add: line_sfxs_def)
  then have "rev (line_sfxs (t @ w0)) = rev (map (\<lambda>u2. u2 @ w0) (nsfx t)) @ w0 # rev (line_sfx w0)"
    by simp
  moreover have "filter P (rev (map (\<lambda>u2. u2 @ w0) (nsfx t))) = []"
    by (rule filter_Nil) (use assms(2) in auto)
  ultimately show ?thesis using assms(3) by simp
qed

lemma tail_greedy_first:
  assumes "newline \<notin> set t" "CHR '')'' \<notin> set post"
  shows "\<exists>others. rmatch tail_greedy (g, b, '']('' @ t @ '')'' @ post)
           = ((''target'', t) # g, False, post) # others"
proof -
  define w0 where "w0 = '')'' @ post"
  let ?P = "\<lambda>x. startswith x '')''"
  let ?c = "\<lambda>x. ((''target'', take (length (t @ w0) - length x) (t @ w0)) # g, False, tl x)"
  have "\<And>x. x \<in> set (line_sfx w0) \<Longrightarrow> \<not> ?P x"
  proof -
    fix x assume "x \<in> set (line_sfx w0)"
    then obtain u where u: "u \<noteq> []" "w0 = u @ x" unfolding set_line_sfx by blast
    then obtain u' where "post = u' @ x" unfolding w0_def by (cases u) auto
    with assms(2) have "CHR '')'' \<notin> set x" by simp
    then show "\<not> ?P x" by (cases x) (auto simp: startswith_def)
  qed
  moreover have "?P w0" by (simp add: startswith_def w0_def)
  ultimately obtain others where "filter ?P (line_sfxs (t @ w0)) = w0 # others"
    using filter_greedy_first[where P = ?P and ?w0.0 = w0, OF assms(1)] by blast
  then have m: "map ?c (filter ?P (line_sfxs (t @ w0))) = ?c w0 # map ?c others"
    by simp
  have c: "?c w0 = ((''target'', t) # g, False, post)" by (simp add: w0_def)
  have "rmatch tail_greedy (g, b, '']('' @ t @ '')'' @ post) = map ?c (filter ?P (line_sfxs (t @ w0)))"
    unfolding tail_greedy_eq by (simp add: startswith_def w0_def)
  also note m
  also note c
  finally show ?thesis by blast
qed

lemma tail_lazy_first:
  assumes "newline \<notin> set t" "CHR '')'' \<notin> set t"
  shows "\<exists>others. rmatch tail_lazy (g, b, '']('' @ t @ '')'' @ post)
           = ((''target'', t) # g, False, post) # others"
proof -
  define w0 where "w0 = '')'' @ post"
  let ?P = "\<lambda>x. startswith x '')''"
  let ?c = "\<lambda>x. ((''target'', take (length (t @ w0) - length x) (t @ w0)) # g, False, tl x)"
  have "\<And>u2. u2 \<in> set (nsfx t) \<Longrightarrow> \<not> ?P (u2 @ w0)"
  proof -
    fix u2 assume "u2 \<in> set (nsfx t)"
    from nsfx_mem[OF this] assms(2) have "u2 \<noteq> []" "hd u2 \<noteq> CHR '')''" by auto
    then show "\<not> ?P (u2 @ w0)" by (cases u2) (auto simp: startswith_def)
  qed
  moreover have "?P w0" by (simp add: startswith_def w0_def)
  ultimately obtain others where "filter ?P (rev (line_sfxs (t @ w0))) = w0 # others"
    using filter_lazy_first[where P = ?P and ?w0.0 = w0, OF assms(1)] by blast
  then have m: "map ?c (filter ?P (rev (line_sfxs (t @ w0)))) = ?c w0 # map ?c others"
    by simp
  have c: "?c w0 = ((''target'', t) # g, False, post)" by (simp add: w0_def)
  have "rmatch tail_lazy (g, b, '']('' @ t @ '')'' @ post) = map ?c (filter ?P (rev (line_sfxs (t @ w0))))"
    unfolding tail_lazy_eq by (simp add: startswith_def w0_def)
  also note m
  also note c
  finally show ?thesis by blast
qed

lemma link_match_line:
  assumes "newline \<notin> set a" "newline \<notin> set t" "\<not> sublist '']('' t" "CHR '')'' \<notin> set post"
  shows "match_here link_regex b (''['' @ a @ '']('' @ t @ '')'' @ post)
           = Some ([(''target'', t), (''ankor'', a)], post)"
proof -
  obtain others where hit: "rmatch tail_greedy ([(''ankor'', a)], False, '']('' @ t @ '')'' @ post)
           = ((''target'', t) # [(''ankor'', a)], False, post) # others"
    using tail_greedy_first[OF assms(2,4)] by blast
  have fail: "\<And>x g b. x \<in> set (line_sfx ('']('' @ t @ '')'' @ post)) \<Longrightarrow> rmatch tail_greedy (g, b, x) = []"
    using tail_fails_inside(1)[where z = "t @ '')'' @ post"] no_tail_greedy[OF assms(3,4)] by simp
  from head_first[where r = tail_greedy and g = "[]", OF assms(1) fail hit]
  obtain rest where "rmatch link_regex ([], b, ''['' @ a @ '']('' @ t @ '')'' @ post)
      = ([(''target'', t), (''ankor'', a)], False, post) # rest"
    unfolding link_regex_tail by auto
  then show ?thesis by (simp add: match_here_def)
qed

lemma kubectl_match_line:
  assumes "newline \<notin> set a" "newline \<notin> set t" "CHR '')'' \<notin> set t"
    "\<not> sublist '']('' t" "\<not> sublist '']('' post"
  shows "match_here kubectl_link_regex b (''['' @ a @ '']('' @ t @ '')'' @ post)
           = Some ([(''target'', t), (''ankor'', a)], post)"
proof -
  obtain others where hit: "rmatch tail_lazy ([(''ankor'', a)], False, '']('' @ t @ '')'' @ post)
           = ((''target'', t) # [(''ankor'', a)], False, post) # others"
    using tail_lazy_first[OF assms(2,3)] by blast
  have nz: "\<And>p q r. t @ '')'' @ post \<noteq> p @ '']('' @ q @ '')'' @ r"
    using no_tail_lazy[OF assms(4,5)] by blast
  have fail: "\<And>x g b. x \<in> set (line_sfx ('']('' @ t @ '')'' @ post)) \<Longrightarrow> rmatch tail_lazy (g, b, x) = []"
    using tail_fails_inside(2)[where z = "t @ '')'' @ post"] nz by simp
  from head_first[where r = tail_lazy and g = "[]", OF assms(1) fail hit]
  obtain rest where "rmatch kubectl_link_regex ([], b, ''['' @ a @ '']('' @ t @ '')'' @ post)
      = ([(''target'', t), (''ankor'', a)], False, post) # rest"
    unfolding kubectl_link_regex_tail by auto
  then show ?thesis by (simp add: match_here_def)
qed

section \<open>Substitution of the links, line by line\<close>



lemma link_like_first_char:
  assumes "link_like r" "match_here r b s = Some (g, s')"
  shows "\<exists>s1. s = CHR ''['' # s1"
  using link_match_sound[of b s g s'] assms by (auto simp: link_like_def)


lemma link_like_progress:
  assumes "link_like r" "match_here r b s = Some (g, s')"
  shows "length s' < length s"
  using link_match_sound[of b s g s'] assms by (auto simp: link_like_def)


lemma sub_from_no_match:
  assumes "\<And>p s b'. x = p @ s \<Longrightarrow> match_here r b' s = None"
  shows "sub_from r repl b x = Inr x"
  using assms
proof (induction x arbitrary: b)
  case Nil
  then show ?case by (simp add: sub_None_Nil)
next
  case (Cons c cs)
  have "match_here r b (c # cs) = None" using Cons.prems[of "[]"] by simp
  moreover have "sub_from r repl False cs = Inr cs"
  proof (rule Cons.IH)
    fix p s b' assume "cs = p @ s"
    then show "match_here r b' s = None" using Cons.prems[of "c # p" s b'] by simp
  qed
  ultimately show ?case by (simp add: sub_None_Cons)
qed




lemma analyze_link:
  "analyze rp sp [(''target'', t), (''ankor'', a)] =
     Inr (fmt_link a
           (if startswith t ''https://'' \<or> startswith t ''mailto:'' \<or> startswith t ''#'' then t
            else if startswith t ''/'' then rp @ ''/'' @ drop 1 t
            else rp @ ''/'' @ sp @ ''/'' @ t))"
  by (simp add: analyze_def group_def)

lemma no_match_no_paren:
  assumes "CHR '')'' \<notin> set s"
  shows "match_here link_regex b s = None"
proof (cases "match_here link_regex b s")
  case None
  then show ?thesis .
next
  case (Some p)
  obtain g s' where "p = (g, s')" by (cases p)
  with Some link_match_sound[of b s g s'] assms show ?thesis by auto
qed

lemma no_match_no_tail:
  assumes "link_like r" "\<not> sublist '']('' s"
  shows "match_here r b s = None"
proof (cases "match_here r b s")
  case None
  then show ?thesis .
next
  case (Some p)
  obtain g s' where "p = (g, s')" by (cases p)
  with Some link_match_sound[of b s g s'] assms(1) obtain a t where
    "s = (''['' @ a) @ '']('' @ (t @ '')'' @ s')" by (auto simp: link_like_def)
  then have "sublist '']('' s" unfolding sublist_def by blast
  with assms(2) show ?thesis by simp
qed

lemma sub_from_no_paren:
  assumes "CHR '')'' \<notin> set x"
  shows "sub_from link_regex repl b x = Inr x"
proof (rule sub_from_no_match)
  fix p s b' assume "x = p @ s"
  with assms have "CHR '')'' \<notin> set s" by simp
  then show "match_here link_regex b' s = None" by (rule no_match_no_paren)
qed

lemma sub_from_no_tail:
  assumes "link_like r" "\<not> sublist '']('' x"
  shows "sub_from r repl b x = Inr x"
proof (rule sub_from_no_match)
  fix p s b' assume "x = p @ s"
  with assms(2) have "\<not> sublist '']('' s"
    by (metis sublist_appendI sublist_order.order.trans suffix_imp_sublist suffixI)
  then show "match_here r b' s = None" by (rule no_match_no_tail[OF assms(1)])
qed

lemma not_bracket_no_match:
  assumes "link_like r" "c \<noteq> CHR ''[''"
  shows "match_here r b (c # s) = None"
  using link_like_first_char[OF assms(1), of b "c # s"] assms(2)
  by (cases "match_here r b (c # s)") auto

lemma rewrite_line_start:
  assumes "newline \<notin> set a" "newline \<notin> set t" "\<not> sublist '']('' t" "CHR '')'' \<notin> set post"
  shows "sub_from link_regex (analyze rp sp) b (''['' @ a @ '']('' @ t @ '')'' @ post) =
     Inr (fmt_link a
           (if startswith t ''https://'' \<or> startswith t ''mailto:'' \<or> startswith t ''#'' then t
            else if startswith t ''/'' then rp @ ''/'' @ drop 1 t
            else rp @ ''/'' @ sp @ ''/'' @ t) @ post)"
proof -
  let ?t' = "if startswith t ''https://'' \<or> startswith t ''mailto:'' \<or> startswith t ''#'' then t
            else if startswith t ''/'' then rp @ ''/'' @ drop 1 t
            else rp @ ''/'' @ sp @ ''/'' @ t"
  have m: "match_here link_regex b (''['' @ a @ '']('' @ t @ '')'' @ post)
           = Some ([(''target'', t), (''ankor'', a)], post)"
    by (rule link_match_line[OF assms])
  have "sub_from link_regex (analyze rp sp) b (''['' @ a @ '']('' @ t @ '')'' @ post) =
        (case sub_from link_regex (analyze rp sp) False post of
           Inl e \<Rightarrow> Inl e | Inr out \<Rightarrow> Inr (fmt_link a ?t' @ out))"
    by (rule sub_Some_progress[where repl = "analyze rp sp", OF m analyze_link]) simp
  then show ?thesis by (simp add: sub_from_no_paren[OF assms(4)])
qed

lemma rewrite_line:
  assumes "newline \<notin> set pre" "newline \<notin> set a" "newline \<notin> set t"
    "\<not> sublist '']('' t" "CHR '')'' \<notin> set post"
  shows "sub_from link_regex (analyze rp sp) b (pre @ ''['' @ a @ '']('' @ t @ '')'' @ post) =
     Inr (pre @ fmt_link a
           (if startswith t ''https://'' \<or> startswith t ''mailto:'' \<or> startswith t ''#'' then t
            else if startswith t ''/'' then rp @ ''/'' @ drop 1 t
            else rp @ ''/'' @ sp @ ''/'' @ t) @ post)"
  using assms(1)
proof (induction pre arbitrary: b)
  case Nil
  show ?case using rewrite_line_start[OF assms(2,3,4,5)] by simp
next
  case (Cons c pre')
  have np: "newline \<notin> set pre'" using Cons.prems(1) by simp
  show ?case
  proof (cases "c = CHR ''[''")
    case True
    have na: "newline \<notin> set (pre' @ ''['' @ a)" using np assms(2) by (simp add: newline_def)
    show ?thesis
      using rewrite_line_start[OF na assms(3,4,5), of rp sp b] True
      by (simp add: fmt_link_def)
  next
    case False
    have "match_here link_regex b (c # pre' @ ''['' @ a @ '']('' @ t @ '')'' @ post) = None"
      by (rule not_bracket_no_match[OF _ False]) (simp add: link_like_def)
    then show ?thesis using Cons.IH[OF np, of False]
      by (simp add: sub_None_Cons)
  qed
qed

lemma kubectl_line:
  assumes "CHR ''['' \<notin> set pre" "newline \<notin> set a" "newline \<notin> set t" "CHR '')'' \<notin> set t"
    "\<not> sublist '']('' t" "\<not> sublist '']('' post"
  shows "sub_from kubectl_link_regex kubectl_analyze b (pre @ ''['' @ a @ '']('' @ t @ '')'' @ post) =
     (case kubectl_analyze [(''target'', t), (''ankor'', a)] of
        Inl e \<Rightarrow> Inl e
      | Inr rep \<Rightarrow> Inr (pre @ rep @ post))"
  using assms(1)
proof (induction pre arbitrary: b)
  case Nil
  have ll: "link_like kubectl_link_regex" by (simp add: link_like_def)
  have m: "match_here kubectl_link_regex b (''['' @ a @ '']('' @ t @ '')'' @ post)
           = Some ([(''target'', t), (''ankor'', a)], post)"
    by (rule kubectl_match_line[OF assms(2,3,4,5,6)])
  show ?case
  proof (cases "kubectl_analyze [(''target'', t), (''ankor'', a)]")
    case (Inl e)
    then show ?thesis using sub_Some_err[where repl = kubectl_analyze, OF m Inl] by simp
  next
    case (Inr rep)
    have "sub_from kubectl_link_regex kubectl_analyze b (''['' @ a @ '']('' @ t @ '')'' @ post) =
        (case sub_from kubectl_link_regex kubectl_analyze False post of
           Inl e \<Rightarrow> Inl e | Inr out \<Rightarrow> Inr (rep @ out))"
      by (rule sub_Some_progress[where repl = kubectl_analyze, OF m Inr]) simp
    then show ?thesis using Inr by (simp add: sub_from_no_tail[OF ll assms(6)])
  qed
next
  case (Cons c pre')
  then have c: "c \<noteq> CHR ''[''" and np: "CHR ''['' \<notin> set pre'" by auto
  have "match_here kubectl_link_regex b (c # pre' @ ''['' @ a @ '']('' @ t @ '')'' @ post) = None"
    by (rule not_bracket_no_match[OF _ c]) (simp add: link_like_def)
  then show ?case using Cons.IH[OF np, of False]
    by (simp add: sub_None_Cons split: sum.splits)
qed

section \<open>The last link of a line\<close>


section \<open>Paths and the pattern for remotes\<close>















section \<open>The checks, the loop over the repositories and the files\<close>

lemma preflight_checks_independent:
  assumes "pip_freeze e = Inr reqs"
  shows "preflight e = Inr (
      (if \<not> (which e ''pip'' \<or> which e ''pip3'')
       then [''Install pip so you can install PyYAML. https://pip.pypa.io/en/stable/installing'']
       else []) @
      (if ''PyYAML'' \<notin> set (map (\<lambda>r. hd (py_split r ''=='')) (py_split_ws reqs))
       then [''Please ensure the PyYAML package is installed; see https://pypi.org/project/PyYAML'']
       else []) @
      (if \<not> which e ''go''
       then [''Go must be installed. See https://golang.org/doc/install'']
       else []))"
  by (simp only: preflight_def Let_def assms sum.case append_assoc)

lemma main_aborts_on_errors:
  assumes "error_msgs \<noteq> []"
  shows "main e error_msgs = (map (\<lambda>msg. Print (msg @ [newline])) error_msgs, Inr (Some (- 2)))"
    and "exit_status (Inr (Some (- 2))) = 254"
  using assms by (simp_all add: main_def exit_status_def)











lemma preflight_raises:
  assumes "pip_freeze e = Inl ex"
  shows "preflight e = Inl ex" and "run e = ([], 1)"
  using assms by (simp_all add: preflight_def run_def Let_def)

section \<open>The claims\<close>

text \<open>
  Claim C3. After the links are rewritten, \<open>process_links\<close> removes one leading line
  from the very start of the content, and only when that line is a heading
  \<open># ...\<close> or is blank. With \<open>c1\<close> the content after link rewriting (which always
  succeeds): if \<open>c1\<close> starts with a newline, that newline is removed; if \<open>c1\<close> starts
  with \<open>"# "\<close> and its first line is ended by a newline, the line and its newline
  are removed; otherwise the result is \<open>c1\<close>. What follows the removed line is
  returned as it is, so a second heading or blank line stays.
\<close>

theorem process_links_strips_one_leading_line:
  "\<exists>c1. rewrite_links content remote_prefix sub_path = Inr c1 \<and>
        process_links content remote_prefix sub_path =
          Inr (if startswith c1 [newline] then tl c1
               else if startswith c1 ''# '' \<and> newline \<in> set c1
                    then tl (dropWhile (\<lambda>c. c \<noteq> newline) c1)
                    else c1)"
proof -
  obtain c1 where c1: "rewrite_links content remote_prefix sub_path = Inr c1"
    using rewrite_links_total by blast
  then show ?thesis
    by (simp add: process_links_def strip_h1_eq)
qed

theorem process_links_strips_one_leading_line_witness:
  "process_links ''# Title\<newline>Body'' ''rp'' ''sp'' = Inr ''Body'' \<and>
   process_links ''\<newline>\<newline>Body'' ''rp'' ''sp'' = Inr ''\<newline>Body'' \<and>
   process_links ''# A\<newline># B\<newline>C'' ''rp'' ''sp'' = Inr ''# B\<newline>C'' \<and>
   process_links ''Body\<newline># B'' ''rp'' ''sp'' = Inr ''Body\<newline># B''"
proof -
  have r1: "rewrite_links ''# Title\<newline>Body'' ''rp'' ''sp'' = Inr ''# Title\<newline>Body''"
    by code_simp
  have r2: "rewrite_links ''\<newline>\<newline>Body'' ''rp'' ''sp'' = Inr ''\<newline>\<newline>Body''"
    by code_simp
  have r3: "rewrite_links ''# A\<newline># B\<newline>C'' ''rp'' ''sp'' = Inr ''# A\<newline># B\<newline>C''"
    by code_simp
  have r4: "rewrite_links ''Body\<newline># B'' ''rp'' ''sp'' = Inr ''Body\<newline># B''"
    by code_simp
  show ?thesis
    using process_links_strips_one_leading_line [of "''# Title\<newline>Body''" "''rp''" "''sp''"]
      process_links_strips_one_leading_line [of "''\<newline>\<newline>Body''" "''rp''" "''sp''"]
      process_links_strips_one_leading_line [of "''# A\<newline># B\<newline>C''" "''rp''" "''sp''"]
      process_links_strips_one_leading_line [of "''Body\<newline># B''" "''rp''" "''sp''"]
    unfolding r1 r2 r3 r4
    by (simp add: startswith_def newline_def)
qed




text \<open>
  Claim C10. On a line with two links with relative URLs the pattern matches once, from
  the first \<open>[\<close> to the last \<open>)\<close>: the link text captured is everything up to the
  last \<open>](\<close>, the first link included, and only the last URL is rewritten. This holds
  for all link texts and URLs without newlines, the second URL \<open>y\<close> being relative
  and free of \<open>](\<close>; the content \<open>[a](x) [b](y)\<close> is one instance.
\<close>

theorem process_links_two_links_on_a_line:
  assumes "newline \<notin> set a" "newline \<notin> set x" "newline \<notin> set b" "newline \<notin> set y"
    "\<not> sublist '']('' y"
    "\<not> (startswith y ''https://'' \<or> startswith y ''mailto:'' \<or> startswith y ''#'' \<or>
        startswith y ''/'')"
  shows "match_here link_regex True (''['' @ a @ '']('' @ x @ '') ['' @ b @ '']('' @ y @ '')'')
           = Some ([(''target'', y), (''ankor'', a @ '']('' @ x @ '') ['' @ b)], [])
         \<and> process_links (''['' @ a @ '']('' @ x @ '') ['' @ b @ '']('' @ y @ '')'') remote_prefix sub_path
           = Inr (''['' @ a @ '']('' @ x @ '') ['' @ b @ '']('' @
                  remote_prefix @ ''/'' @ sub_path @ ''/'' @ y @ '')'')"
proof -
  let ?ankor = "a @ '']('' @ x @ '') ['' @ b"
  have na: "newline \<notin> set ?ankor" using assms(1,2,3) by (simp add: newline_def)
  have m: "match_here link_regex True (''['' @ ?ankor @ '']('' @ y @ '')'' @ [])
           = Some ([(''target'', y), (''ankor'', ?ankor)], [])"
    by (rule link_match_line[OF na assms(4,5)]) simp
  have "sub_from link_regex (analyze remote_prefix sub_path) True
          ([] @ ''['' @ ?ankor @ '']('' @ y @ '')'' @ []) =
        Inr ([] @ fmt_link ?ankor (remote_prefix @ ''/'' @ sub_path @ ''/'' @ y) @ [])"
    using rewrite_line[where pre = "[]" and post = "[]", OF _ na assms(4,5), of remote_prefix sub_path True]
      assms(6) by simp
  then have r: "rewrite_links (''['' @ ?ankor @ '']('' @ y @ '')'') remote_prefix sub_path =
        Inr (''['' @ ?ankor @ '']('' @ remote_prefix @ ''/'' @ sub_path @ ''/'' @ y @ '')'')"
    by (simp add: rewrite_links_def re_sub_def fmt_link_def)
  have "process_links (''['' @ ?ankor @ '']('' @ y @ '')'') remote_prefix sub_path =
        Inr (''['' @ ?ankor @ '']('' @ remote_prefix @ ''/'' @ sub_path @ ''/'' @ y @ '')'')"
    unfolding process_links_def r
    by (simp add: strip_h1_eq startswith_def newline_def)
  with m show ?thesis by simp
qed

theorem process_links_two_links_on_a_line_witness:
  "process_links ''[a](x) [b](y)'' ''rp'' ''sp'' = Inr ''[a](x) [b](rp/sp/y)''"
proof -
  have h: "newline \<notin> set ''a''" "newline \<notin> set ''x''" "newline \<notin> set ''b''" "newline \<notin> set ''y''"
    by (simp_all add: newline_def)
  have n: "\<not> sublist '']('' ''y''" by code_simp
  have r: "\<not> (startswith ''y'' ''https://'' \<or> startswith ''y'' ''mailto:'' \<or> startswith ''y'' ''#'' \<or>
        startswith ''y'' ''/'')"
    by (simp add: startswith_def)
  show ?thesis
    using process_links_two_links_on_a_line[OF h n r, of "''rp''" "''sp''"] by simp
qed

text \<open>
  Claim C4. The claim says that every check of the preflight runs whatever the earlier
  ones found, and that \<open>main\<close> then prints every message and ends the run. The
  module calls \<open>subprocess.check_output\<close> for \<open>python -m pip freeze\<close> between
  the first check and the second, outside any handler. In an environment without pip
  that call raises CalledProcessError: the module raises while it is imported, the
  checks for PyYAML and for Go never run, \<open>main\<close> is never entered and no message is
  printed; the run ends with status 1.
\<close>

theorem preflight_stops_when_pip_freeze_raises:
  "preflight no_pip_env = Inl CalledProcessError \<and> run no_pip_env = ([], 1)"
proof -
  have "pip_freeze no_pip_env = Inl CalledProcessError"
    by (simp add: no_pip_env_def)
  from preflight_raises[OF this] show ?thesis by simp
qed




text \<open>
  Claim C6. The release string gets \<open>".0"\<close> appended if and only if it has exactly
  four characters (and then has six); a string of any other length is passed on as it
  is. Nothing else changes it: what \<open>main\<close> does after loading the configuration
  is done with the normalised string.
\<close>

theorem release_string_normalised:
  "((normalize_release r = r @ ''.0'') = (length r = 4)) \<and>
   (length r = 4 \<longrightarrow> length (normalize_release r) = 6) \<and>
   (length r \<noteq> 4 \<longrightarrow> normalize_release r = r) \<and>
   (\<forall>cf cd. parse_input_args e = Inr (cf, r) \<and> yaml_load e cf = Inr cd \<longrightarrow>
      snd (main e []) =
      snd (main_work e (normalize_release r)
             (realpath e (os_path_join (os_path_dirname (script_abspath e)) ''..'')) cd))"
  by (auto simp: normalize_release_def main_def Let_def split: prod.splits)

theorem release_string_normalised_witness:
  "normalize_release ''1.17'' = ''1.17.0'' \<and> normalize_release ''1.17.0'' = ''1.17.0'' \<and>
   normalize_release ''1.9'' = ''1.9''"
  using release_string_normalised [of "''1.17''"] release_string_normalised [of "''1.17.0''"]
    release_string_normalised [of "''1.9''"]
  by simp





end
